theory Spec2Isabelle
  imports Main
begin

section \<open>Text primitives\<close>

text \<open>
  A document is the text returned by \<^verbatim>\<open>f.read()\<close>. It is modelled as a \<^typ>\<open>string\<close>,
  one \<^typ>\<open>char\<close> per character, which covers the characters with code points below 256;
  among those the decimal digits recognised by \<^verbatim>\<open>\d\<close> are exactly \<^verbatim>\<open>0\<close> to \<^verbatim>\<open>9\<close>.
\<close>

definition newline :: char where
  "newline = CHR 0x0A"

definition isdigit :: "char \<Rightarrow> bool" where
  "isdigit c = (c \<in> set ''0123456789'')"

text \<open>\<^verbatim>\<open>s.startswith(p)\<close>, written \<open>startswith p s\<close>.\<close>

fun startswith :: "string \<Rightarrow> string \<Rightarrow> bool" where
  "startswith [] s = True"
| "startswith (p # ps) [] = False"
| "startswith (p # ps) (c # cs) = (p = c \<and> startswith ps cs)"

text \<open>\<^verbatim>\<open>sub in s\<close>, written \<open>contains sub s\<close>: \<open>sub\<close> starts at some position of \<open>s\<close>.\<close>

fun contains :: "string \<Rightarrow> string \<Rightarrow> bool" where
  "contains sub [] = (sub = [])"
| "contains sub (c # cs) = (startswith sub (c # cs) \<or> contains sub cs)"

text \<open>\<^verbatim>\<open>s.split('\n')\<close>: the lines of a text; never the empty list.\<close>

fun split_lines :: "string \<Rightarrow> string list" where
  "split_lines [] = [[]]"
| "split_lines (c # cs) =
     (if c = newline then [] # split_lines cs
      else (case split_lines cs of [] \<Rightarrow> [[c]] | l # ls \<Rightarrow> (c # l) # ls))"

section \<open>Regular expressions\<close>

text \<open>
  The patterns of the two scripts are sequences of the following items. \<open>Lit c\<close> is the
  character \<open>c\<close>, \<open>Digit\<close> is \<^verbatim>\<open>\d\<close>, \<open>Bol\<close> and \<open>Eol\<close> are \<^verbatim>\<open>^\<close> and \<^verbatim>\<open>$\<close> under
  \<^verbatim>\<open>re.MULTILINE\<close>, and \<open>LazyAnyPlus\<close> is \<^verbatim>\<open>.+?\<close> under \<^verbatim>\<open>re.DOTALL\<close> (the dot matches
  every character, the newline included).
\<close>

datatype item = Lit char | Digit | Bol | Eol | LazyAnyPlus

text \<open>
  \<open>rmatch p bol s\<close> matches the pattern \<open>p\<close> at the start of \<open>s\<close> by backtracking and returns
  the length of the match; \<open>bol\<close> says whether \<open>s\<close> starts the text or follows a newline.
  The lazy quantifier takes one character and tries the rest of the pattern before it
  takes another one.
\<close>

fun rmatch :: "item list \<Rightarrow> bool \<Rightarrow> string \<Rightarrow> nat option" where
  "rmatch [] bol s = Some 0"
| "rmatch (Lit c # p) bol [] = None"
| "rmatch (Lit c # p) bol (x # s) =
     (if x = c then map_option Suc (rmatch p (x = newline) s) else None)"
| "rmatch (Digit # p) bol [] = None"
| "rmatch (Digit # p) bol (x # s) =
     (if isdigit x then map_option Suc (rmatch p (x = newline) s) else None)"
| "rmatch (Bol # p) bol s = (if bol then rmatch p bol s else None)"
| "rmatch (Eol # p) bol [] = rmatch p bol []"
| "rmatch (Eol # p) bol (x # s) = (if x = newline then rmatch p bol (x # s) else None)"
| "rmatch (LazyAnyPlus # p) bol [] = None"
| "rmatch (LazyAnyPlus # p) bol (x # s) =
     (case rmatch p (x = newline) s of
        Some n \<Rightarrow> Some (Suc n)
      | None \<Rightarrow> map_option Suc (rmatch (LazyAnyPlus # p) (x = newline) s))"

text \<open>
  \<^verbatim>\<open>re.findall(p, s)\<close>: the matches of \<open>p\<close> in \<open>s\<close>, scanning from left to right. After a
  match the scan resumes behind it (\<open>skip\<close> counts the characters of the match still to
  pass), after a failure one character later. An empty match is recorded and the scan
  moves on by one character.
\<close>

fun findall_from :: "item list \<Rightarrow> nat \<Rightarrow> bool \<Rightarrow> string \<Rightarrow> string list" where
  "findall_from p skip bol [] =
     (if skip = 0 then (case rmatch p bol [] of Some n \<Rightarrow> [[]] | None \<Rightarrow> []) else [])"
| "findall_from p skip bol (c # cs) =
     (if 0 < skip then findall_from p (skip - 1) (c = newline) cs
      else (case rmatch p bol (c # cs) of
              Some n \<Rightarrow> take n (c # cs) # findall_from p (n - 1) (c = newline) cs
            | None \<Rightarrow> findall_from p 0 (c = newline) cs))"

definition findall :: "item list \<Rightarrow> string \<Rightarrow> string list" where
  "findall p s = findall_from p 0 True s"

definition lits :: "string \<Rightarrow> item list" where
  "lits s = map Lit s"

section \<open>Output\<close>

text \<open>
  Standard output is the list of the strings given to \<^verbatim>\<open>print\<close>, in order; the text written
  is each of them followed by a newline. Printed text is given as the bytes of its UTF-8
  encoding, which matters for the four symbols below only.
\<close>

type_synonym stdout = "string list"

definition print :: "string \<Rightarrow> stdout \<Rightarrow> stdout" where
  "print s out = out @ [s]"

definition stdout_text :: "stdout \<Rightarrow> string" where
  "stdout_text out = concat (map (\<lambda>s. s @ [newline]) out)"

definition check_mark :: string where
  "check_mark = [CHR 0xE2, CHR 0x9C, CHR 0x93]"

definition cross_mark :: string where
  "cross_mark = [CHR 0xE2, CHR 0x9C, CHR 0x97]"

definition check_box :: string where
  "check_box = [CHR 0xE2, CHR 0x9C, CHR 0x85]"

definition bar_chart :: string where
  "bar_chart = [CHR 0xF0, CHR 0x9F, CHR 0x93, CHR 0x8A]"

text \<open>\<^verbatim>\<open>str(n)\<close> for a count \<open>n\<close>.\<close>

fun str_nat :: "nat \<Rightarrow> string" where
  "str_nat n =
     (if n < 10 then [''0123456789'' ! n]
      else str_nat (n div 10) @ [''0123456789'' ! (n mod 10)])"

declare str_nat.simps [simp del]

section \<open>The script final\_verify.py\<close>

definition sections_re :: "item list" where
  "sections_re = Bol # lits ''## '' @ [Digit] @ lits ''. ''"

definition sections :: "string \<Rightarrow> string list" where
  "sections content = findall sections_re content"

definition all_headers_re :: "item list" where
  "all_headers_re = Bol # lits ''## ''"

definition all_headers :: "string \<Rightarrow> string list" where
  "all_headers content = findall all_headers_re content"

definition section_pattern :: "item list" where
  "section_pattern =
     lits ''## '' @ [Digit] @ lits ''. '' @ [LazyAnyPlus] @
     lits ''\<newline>\<newline>**Impact:**''"

definition sections_with_metadata :: "string \<Rightarrow> nat" where
  "sections_with_metadata content = length (findall section_pattern content)"

definition horizontal_rules_re :: "item list" where
  "horizontal_rules_re = Bol # lits ''---'' @ [Eol]"

definition horizontal_rules :: "string \<Rightarrow> nat" where
  "horizontal_rules content = length (findall horizontal_rules_re content)"

text \<open>\<^verbatim>\<open>content.count('\n')\<close>\<close>

definition lines :: "string \<Rightarrow> nat" where
  "lines content = count_list content newline"

text \<open>
  \<^verbatim>\<open>str.isspace\<close> on one character, \<^verbatim>\<open>s.rstrip()\<close>, \<^verbatim>\<open>s.endswith(suf)\<close> and the slice
  \<^verbatim>\<open>s[-200:]\<close>, which is all of \<open>s\<close> when \<open>s\<close> has fewer than 200 characters.
\<close>

definition isspace :: "char \<Rightarrow> bool" where
  "isspace c = (c \<in> set [CHR 0x09, CHR 0x0A, CHR 0x0B, CHR 0x0C, CHR 0x0D, CHR 0x1C,
     CHR 0x1D, CHR 0x1E, CHR 0x1F, CHR 0x20, CHR 0x85, CHR 0xA0])"

definition rstrip :: "string \<Rightarrow> string" where
  "rstrip s = rev (dropWhile isspace (rev s))"

definition endswith :: "string \<Rightarrow> string \<Rightarrow> bool" where
  "endswith suf s = startswith (rev suf) (rev s)"

definition last200 :: "string \<Rightarrow> string" where
  "last200 s = drop (length s - 200) s"

definition toc_line :: string where
  "toc_line = check_mark @ '' Table of Contents present''"

definition metadata_line :: string where
  "metadata_line = check_mark @ '' Header metadata present (Version, Organization, Date)''"

text \<open>The six prints that end the script; \<open>n\<close> is the value of \<^verbatim>\<open>lines\<close>.\<close>

definition summary :: "nat \<Rightarrow> stdout" where
  "summary n =
     [''\<newline>'' @ check_box @ '' AGENTS.md file is complete and well-formed!'',
      ''\<newline>'' @ bar_chart @ '' Summary:'',
      ''   - 7 main sections'',
      ''   - 23 rules total'',
      ''   - '' @ str_nat n @ '' lines'',
      ''   - All rules properly formatted and organized'']"

definition final_verify :: "string \<Rightarrow> stdout" where
  "final_verify content =
    (let out = [];
         out = print (check_mark @ '' Number of main sections: ''
                 @ str_nat (length (sections content))) out;
         out = print (check_mark @ '' Total headers (##): ''
                 @ str_nat (length (all_headers content))) out;
         out = (if contains ''## Table of Contents'' content
                then print toc_line out else out);
         out = (if contains ''**Version:**'' content \<and> contains ''**Organization:**'' content
                   \<and> contains ''**Date:**'' content
                then print metadata_line out else out);
         out = (if contains ''## Abstract'' content
                then print (check_mark @ '' Abstract present'') out else out);
         out = print (check_mark @ '' Sections with metadata: ''
                 @ str_nat (sections_with_metadata content) @ ''/7'') out;
         out = print (check_mark @ '' Horizontal rule separators: ''
                 @ str_nat (horizontal_rules content)) out;
         out = print (check_mark @ '' Total lines: '' @ str_nat (lines content)) out;
         out = (if endswith '']'' (rstrip content) \<or> contains ''Reference:'' (last200 content)
                then print (check_mark @ '' File ends with proper content'') out else out)
     in out @ summary (lines content))"

section \<open>The script verify\_sections.py\<close>

text \<open>The dictionary \<^verbatim>\<open>sections\<close> of verify\_sections.py, in its order of declaration.\<close>

definition sections_catalog :: "(string \<times> string list) list" where
  "sections_catalog =
    [(''route'', [''Use Route-Based Code Splitting'', ''Use Loading Substates for Better UX'',
        ''Parallel Data Loading in Model Hooks'']),
     (''bundle'', [''Avoid Importing Entire Addon Namespaces'', ''Use Embroider Static Mode'',
        ''Lazy Load Heavy Dependencies'']),
     (''component'', [''Use @cached for Expensive Getters'', ''Avoid Unnecessary Tracking'',
        ''Use Tracked Toolbox for Complex State'',
        ''Use Glimmer Components Over Classic Components'']),
     (''a11y'', [''Use ember-a11y-testing for Automated Checks'',
        ''Form Labels and Error Announcements'', ''Keyboard Navigation Support'',
        ''Announce Route Transitions to Screen Readers'',
        ''Semantic HTML and ARIA Attributes'']),
     (''service'', [''Cache API Responses in Services'', ''Optimize Ember Data Queries'',
        ''Use Services for Shared State'']),
     (''template'', [''Avoid Heavy Computation in Templates'',
        ''Use {{#each}} with @key for Lists'', ''Use {{#let}} to Avoid Recomputation'']),
     (''advanced'', [''Use Helpers for Template Logic'',
        ''Use Modifiers for DOM Side Effects''])]"

text \<open>\<^verbatim>\<open>s.upper()\<close>; the keys of the dictionary have no letters other than \<^verbatim>\<open>a\<close> to \<^verbatim>\<open>z\<close>.\<close>

definition upper :: "string \<Rightarrow> string" where
  "upper s = map (\<lambda>c. if c \<in> set ''abcdefghijklmnopqrstuvwxyz''
                      then char_of (of_char c - (32::nat)) else c) s"

definition found_line :: "string \<Rightarrow> string" where
  "found_line rule = ''  '' @ check_mark @ '' '' @ rule"

definition missing_line :: "string \<Rightarrow> string" where
  "missing_line rule = ''  '' @ cross_mark @ '' MISSING: '' @ rule"

definition category_line :: "string \<Rightarrow> string list \<Rightarrow> string" where
  "category_line prefix rules =
     ''\<newline>'' @ upper prefix @ '' ('' @ str_nat (length rules) @ '' rules):''"

text \<open>
  The inner loop over the rules of one category and the outer loop over the categories;
  the state is the output so far and \<^verbatim>\<open>total_rules\<close>.
\<close>

fun check_rules :: "string \<Rightarrow> string list \<Rightarrow> stdout \<times> nat \<Rightarrow> stdout \<times> nat" where
  "check_rules content [] st = st"
| "check_rules content (rule # rules) (out, found) =
     (if contains (''## '' @ rule) content
      then check_rules content rules (print (found_line rule) out, found + 1)
      else check_rules content rules (print (missing_line rule) out, found))"

fun check_sections ::
  "string \<Rightarrow> (string \<times> string list) list \<Rightarrow> stdout \<times> nat \<Rightarrow> stdout \<times> nat" where
  "check_sections content [] st = st"
| "check_sections content ((prefix, rules) # rest) (out, found) =
     check_sections content rest
       (check_rules content rules (print (category_line prefix rules) out, found))"

definition scan_catalog :: "string \<Rightarrow> stdout \<times> nat" where
  "scan_catalog content =
     (let out = [];
          out = print ''Verifying all rules are present in AGENTS.md:'' out;
          out = print (replicate 60 (CHR ''='')) out
      in check_sections content sections_catalog (out, 0))"

definition total_rules :: "string \<Rightarrow> nat" where
  "total_rules content = snd (scan_catalog content)"

definition verify_sections :: "string \<Rightarrow> stdout" where
  "verify_sections content =
     (let (out, total_rules) = scan_catalog content;
          out = print (''\<newline>'' @ replicate 60 (CHR ''='')) out;
          out = print (''Total rules found: '' @ str_nat total_rules @ ''/23'') out
      in out)"

section \<open>Running the scripts\<close>

text \<open>
  Both scripts open \<^verbatim>\<open>AGENTS.md\<close> for reading before they print anything; a missing file
  ends the run with an error and no output. The world is the content of the files by
  path; a run returns its result and the world it leaves.
\<close>

record world =
  files :: "string \<rightharpoonup> string"

datatype error = FileNotFoundError

definition read_file :: "string \<Rightarrow> world \<Rightarrow> (error + string) \<times> world" where
  "read_file path w =
     (case files w path of None \<Rightarrow> (Inl FileNotFoundError, w) | Some text \<Rightarrow> (Inr text, w))"

definition run_final_verify :: "world \<Rightarrow> (error + string) \<times> world" where
  "run_final_verify w =
     (case read_file ''AGENTS.md'' w of
        (Inl e, w') \<Rightarrow> (Inl e, w')
      | (Inr content, w') \<Rightarrow> (Inr (stdout_text (final_verify content)), w'))"

definition run_verify_sections :: "world \<Rightarrow> (error + string) \<times> world" where
  "run_verify_sections w =
     (case read_file ''AGENTS.md'' w of
        (Inl e, w') \<Rightarrow> (Inl e, w')
      | (Inr content, w') \<Rightarrow> (Inr (stdout_text (verify_sections content)), w'))"

section \<open>What the catalog check reports\<close>

text \<open>
  The expected titles in their order of declaration, whether a title is present (its
  sub-header rendering is a substring of the document), and the line reported for it.
\<close>

definition all_rules :: "string list" where
  "all_rules = concat (map snd sections_catalog)"

definition present :: "string \<Rightarrow> string \<Rightarrow> bool" where
  "present content rule = contains (''## '' @ rule) content"

definition report :: "string \<Rightarrow> string \<Rightarrow> string" where
  "report content rule = (if present content rule then found_line rule else missing_line rule)"

text \<open>
  A document that has one heading line for every expected title, the title rendered by
  \<open>f\<close>; with the identity it holds every title as the catalog spells it.
\<close>

definition document_with :: "(string \<Rightarrow> string) \<Rightarrow> string" where
  "document_with f = concat (map (\<lambda>rule. ''## '' @ f rule @ ''\<newline>'') all_rules)"

text \<open>
  The document with every expected title as a heading line, except that an exclamation
  mark is added at the end of the heading of \<^verbatim>\<open>Use Embroider Static Mode\<close>.
\<close>

definition altered_document :: string where
  "altered_document = concat
    [''## Use Route-Based Code Splitting\<newline>'',
     ''## Use Loading Substates for Better UX\<newline>'',
     ''## Parallel Data Loading in Model Hooks\<newline>'',
     ''## Avoid Importing Entire Addon Namespaces\<newline>'',
     ''## Use Embroider Static Mode!\<newline>'',
     ''## Lazy Load Heavy Dependencies\<newline>'',
     ''## Use @cached for Expensive Getters\<newline>'',
     ''## Avoid Unnecessary Tracking\<newline>'',
     ''## Use Tracked Toolbox for Complex State\<newline>'',
     ''## Use Glimmer Components Over Classic Components\<newline>'',
     ''## Use ember-a11y-testing for Automated Checks\<newline>'',
     ''## Form Labels and Error Announcements\<newline>'',
     ''## Keyboard Navigation Support\<newline>'',
     ''## Announce Route Transitions to Screen Readers\<newline>'',
     ''## Semantic HTML and ARIA Attributes\<newline>'',
     ''## Cache API Responses in Services\<newline>'',
     ''## Optimize Ember Data Queries\<newline>'',
     ''## Use Services for Shared State\<newline>'',
     ''## Avoid Heavy Computation in Templates\<newline>'',
     ''## Use {{#each}} with @key for Lists\<newline>'',
     ''## Use {{#let}} to Avoid Recomputation\<newline>'',
     ''## Use Helpers for Template Logic\<newline>'',
     ''## Use Modifiers for DOM Side Effects\<newline>'']"

text \<open>
  The document with every expected title as a heading line, except that one letter of
  \<^verbatim>\<open>Use Embroider Static Mode\<close> is in lower case.
\<close>

definition recased_document :: string where
  "recased_document =
     document_with (\<lambda>rule. if rule = ''Use Embroider Static Mode''
                            then ''Use Embroider static Mode'' else rule)"

text \<open>The prefix of every line that reports a missing title.\<close>

definition missing_prefix :: string where
  "missing_prefix = ''  '' @ cross_mark @ '' MISSING:''"

section \<open>What the specification counts\<close>

text \<open>
  The specification speaks of the lines of the document. A numbered second-level header is
  a line that starts with the header token \<^verbatim>\<open>## \<close> followed by a single digit, a period and
  a space; a second-level header is a line that starts with the header token; a separator
  is a line that is exactly \<^verbatim>\<open>---\<close>.
\<close>

definition numbered_header_line :: "string \<Rightarrow> bool" where
  "numbered_header_line l =
     (startswith ''## '' l \<and>
      (case drop 3 l of [] \<Rightarrow> False | d # r \<Rightarrow> isdigit d \<and> startswith ''. '' r))"

definition header_line :: "string \<Rightarrow> bool" where
  "header_line l = startswith ''## '' l"

definition separator_line :: "string \<Rightarrow> bool" where
  "separator_line l = (l = ''---'')"

definition count_lines :: "(string \<Rightarrow> bool) \<Rightarrow> string \<Rightarrow> nat" where
  "count_lines P content = length (filter P (split_lines content))"

text \<open>
  For the sections with a metadata block the specification counts the numbered section
  headings whose line is followed by exactly one blank line and then by a line that opens
  with the marker \<^verbatim>\<open>**Impact:**\<close>. \<open>adjacent_count heading ls\<close> counts the lines of \<open>ls\<close>
  that satisfy \<open>heading\<close> and are followed in this way. A titled header is a numbered
  header with some text after the space. \<open>count_sub sub s\<close> is the number of positions of
  \<open>s\<close> at which \<open>sub\<close> occurs.
\<close>

definition impact_marker :: string where
  "impact_marker = ''\<newline>\<newline>**Impact:**''"

fun adjacent_count :: "(string \<Rightarrow> bool) \<Rightarrow> string list \<Rightarrow> nat" where
  "adjacent_count heading (l # b # m # rest) =
     (if heading l \<and> b = [] \<and> startswith ''**Impact:**'' m then 1 else 0)
       + adjacent_count heading (b # m # rest)"
| "adjacent_count heading ls = 0"

definition titled_header_line :: "string \<Rightarrow> bool" where
  "titled_header_line l = (numbered_header_line l \<and> 6 < length l)"

fun count_sub :: "string \<Rightarrow> string \<Rightarrow> nat" where
  "count_sub sub [] = (if sub = [] then 1 else 0)"
| "count_sub sub (c # cs) = (if startswith sub (c # cs) then 1 else 0) + count_sub sub cs"

section \<open>Auxiliary notions for the proofs\<close>

text \<open>The matches that start a line \<open>l\<close>: at most one for a pattern anchored by \<open>Bol\<close>.\<close>

definition hits :: "item list \<Rightarrow> string \<Rightarrow> string list" where
  "hits p l = (case rmatch p True l of Some n \<Rightarrow> [take n l] | None \<Rightarrow> [])"

text \<open>A pattern whose matches stay within one line.\<close>

fun line_item :: "item \<Rightarrow> bool" where
  "line_item (Lit c) = (c \<noteq> newline)"
| "line_item LazyAnyPlus = False"
| "line_item _ = True"

text \<open>\<^verbatim>\<open>s.find(sub)\<close>: the first position of \<open>s\<close> at which \<open>sub\<close> occurs, if any.\<close>

fun find_sub :: "string \<Rightarrow> string \<Rightarrow> nat option" where
  "find_sub sub [] = (if sub = [] then Some 0 else None)"
| "find_sub sub (c # cs) =
     (if startswith sub (c # cs) then Some 0 else map_option Suc (find_sub sub cs))"

text \<open>
  A text that starts with a titled header whose line is followed at once by the blank
  line and the marker, and the number of line starts of a text at which this holds
  (\<open>bol\<close> says whether the text itself starts a line).
\<close>

definition conforming :: "string \<Rightarrow> bool" where
  "conforming s =
     (numbered_header_line s \<and> takeWhile (\<lambda>c. c \<noteq> newline) (drop 6 s) \<noteq> [] \<and>
      startswith impact_marker (dropWhile (\<lambda>c. c \<noteq> newline) (drop 6 s)))"

fun conforming_starts :: "bool \<Rightarrow> string \<Rightarrow> nat" where
  "conforming_starts bol [] = 0"
| "conforming_starts bol (c # cs) =
     (if bol \<and> conforming (c # cs) then 1 else 0) + conforming_starts (c = newline) cs"

definition example_document :: string where
  "example_document =
     ''# Guide\<newline>## Table of Contents\<newline>## 1. Routes\<newline>\<newline>**Impact:** HIGH\<newline>---\<newline>## 2. Build\<newline>text\<newline>--- \<newline>### 3. x\<newline>---''"

section \<open>Lines and anchored patterns\<close>

lemma split_lines_no_newline: "newline \<notin> set l \<Longrightarrow> split_lines l = [l]"
  by (induction l) auto

lemma split_lines_append:
  "newline \<notin> set l \<Longrightarrow> split_lines (l @ newline # rest) = l # split_lines rest"
  by (induction l) auto

lemma isdigit_newline [simp]: "\<not> isdigit newline"
  by (simp add: isdigit_def newline_def)

lemma rmatch_length: "rmatch p bol s = Some n \<Longrightarrow> n \<le> length s"
  by (induction p bol s arbitrary: n rule: rmatch.induct)
    (auto split: if_splits option.splits)

lemma rmatch_lits:
  "rmatch (lits m @ p) bol s =
     (if startswith m s
      then map_option (\<lambda>n. length m + n)
             (rmatch p (if m = [] then bol else last m = newline) (drop (length m) s))
      else None)"
proof (induction m s arbitrary: bol rule: startswith.induct)
  case (1 s)
  show ?case by (cases "rmatch p bol s") (simp_all add: lits_def)
next
  case (2 c m)
  show ?case by (simp add: lits_def)
next
  case (3 c m x s)
  from 3[of "x = newline"] show ?case
    by (auto simp: lits_def option.map_comp comp_def)
qed

lemma rmatch_line_local:
  "\<forall>i \<in> set p. line_item i \<Longrightarrow> newline \<notin> set l \<Longrightarrow>
     rmatch p bol (l @ newline # rest) = rmatch p bol l"
proof (induction p bol l rule: rmatch.induct)
  case (3 c p bol x s)
  then show ?case by auto
next
  case (5 p bol x s)
  then show ?case by auto
next
  case (8 p bol x s)
  then show ?case by auto
qed auto


lemma findall_from_rest_of_line:
  assumes anch: "\<And>s. rmatch p False s = None"
  shows "newline \<notin> set l \<Longrightarrow> k \<le> length l \<Longrightarrow>
    findall_from p k False (l @ newline # rest) = findall_from p 0 True rest"
proof (induction l arbitrary: k)
  case Nil
  then show ?case by (simp add: anch)
next
  case (Cons c l)
  from Cons.prems have c: "c \<noteq> newline" and l: "newline \<notin> set l" by auto
  show ?case
  proof (cases k)
    case 0
    with Cons.IH[OF l, of 0] c show ?thesis by (simp add: anch)
  next
    case (Suc j)
    with Cons.IH[OF l, of j] Cons.prems c show ?thesis by simp
  qed
qed

lemma findall_from_last_line:
  assumes anch: "\<And>s. rmatch p False s = None"
  shows "newline \<notin> set l \<Longrightarrow> findall_from p k False l = []"
proof (induction l arbitrary: k)
  case Nil
  then show ?case by (simp add: anch)
next
  case (Cons c l)
  from Cons.prems have c: "c \<noteq> newline" and l: "newline \<notin> set l" by auto
  with Cons.IH show ?case by (cases k) (simp_all add: anch)
qed

lemma findall_from_line_step:
  assumes anch: "\<And>s. rmatch p False s = None"
    and pos: "\<And>s n. rmatch p True s = Some n \<Longrightarrow> 0 < n"
    and loc: "\<And>l rest. newline \<notin> set l \<Longrightarrow> rmatch p True (l @ newline # rest) = rmatch p True l"
    and l: "newline \<notin> set l"
  shows "findall_from p 0 True (l @ newline # rest) = hits p l @ findall_from p 0 True rest"
proof (cases "rmatch p True l")
  case None
  show ?thesis
  proof (cases l)
    case Nil
    with None loc[of "[]" rest] show ?thesis by (simp add: hits_def)
  next
    case (Cons c l')
    with l have "newline \<notin> set l'" "c \<noteq> newline" by auto
    with Cons None loc[OF l, of rest]
      findall_from_rest_of_line[of p l' 0 rest, OF anch]
    show ?thesis by (simp add: hits_def)
  qed
next
  case (Some n)
  from pos[OF Some] rmatch_length[OF Some] have n: "0 < n" "n \<le> length l" by simp_all
  then obtain c l' where cl: "l = c # l'" by (cases l) auto
  from n cl have k: "n - 1 \<le> length l'" by simp
  from n have tk: "take n (l @ newline # rest) = take n l" by simp
  from l cl have "newline \<notin> set l'" "c \<noteq> newline" by auto
  with Some loc[OF l, of rest] cl tk
    findall_from_rest_of_line[of p l' "n - 1" rest, OF anch _ k]
  show ?thesis by (simp add: hits_def)
qed

lemma findall_from_line_last:
  assumes anch: "\<And>s. rmatch p False s = None"
    and pos: "\<And>s n. rmatch p True s = Some n \<Longrightarrow> 0 < n"
    and l: "newline \<notin> set l"
  shows "findall_from p 0 True l = hits p l"
proof (cases l)
  case Nil
  with pos[of "[]"] show ?thesis by (auto simp: hits_def split: option.splits)
next
  case (Cons c l')
  with l have "newline \<notin> set l'" "c \<noteq> newline" by auto
  with Cons findall_from_last_line[of p l', OF anch] 
  show ?thesis by (simp add: hits_def split: option.splits)
qed

lemma findall_by_lines:
  assumes anch: "\<And>s. rmatch p False s = None"
    and pos: "\<And>s n. rmatch p True s = Some n \<Longrightarrow> 0 < n"
    and loc: "\<And>l rest. newline \<notin> set l \<Longrightarrow> rmatch p True (l @ newline # rest) = rmatch p True l"
  shows "findall p s = concat (map (hits p) (split_lines s))"
proof (induction "length s" arbitrary: s rule: less_induct)
  case less
  show ?case
  proof (cases "newline \<in> set s")
    case False
    then show ?thesis
      using findall_from_line_last[of p s, OF anch pos]
      by (simp add: findall_def split_lines_no_newline)
  next
    case True
    then obtain l rest where s: "s = l @ newline # rest" and l: "newline \<notin> set l"
      by (auto dest: split_list_first)
    from s have "length rest < length s" by simp
    from less[OF this] s l
      findall_from_line_step[of p l rest, OF anch pos loc]
    show ?thesis by (simp add: findall_def split_lines_append)
  qed
qed

lemma length_concat_hits:
  assumes "\<And>l. l \<in> set ls \<Longrightarrow> length (hits p l) = (if P l then 1 else 0)"
  shows "length (concat (map (hits p) ls)) = length (filter P ls)"
  using assms by (induction ls) simp_all

lemma split_lines_nonempty [simp]: "split_lines s \<noteq> []"
  by (induction s) (auto split: list.splits)

lemma split_lines_no_newlines: "l \<in> set (split_lines s) \<Longrightarrow> newline \<notin> set l"
  by (induction s arbitrary: l) (auto split: if_splits list.splits)

lemma startswith_Cons:
  "startswith (p # ps) s = (case s of [] \<Rightarrow> False | c # cs \<Rightarrow> p = c \<and> startswith ps cs)"
  by (cases s) simp_all

lemma rmatch_Lit:
  "rmatch (Lit c # p) bol s =
     (case s of [] \<Rightarrow> None
      | x # t \<Rightarrow> if x = c then map_option Suc (rmatch p (x = newline) t) else None)"
  by (cases s) simp_all

lemma rmatch_Digit:
  "rmatch (Digit # p) bol s =
     (case s of [] \<Rightarrow> None
      | x # t \<Rightarrow> if isdigit x then map_option Suc (rmatch p (x = newline) t) else None)"
  by (cases s) simp_all

lemma rmatch_Eol:
  "rmatch (Eol # p) bol s =
     (case s of [] \<Rightarrow> rmatch p bol []
      | x # t \<Rightarrow> if x = newline then rmatch p bol (x # t) else None)"
  by (cases s) simp_all

lemma rmatch_sections_re:
  "rmatch sections_re bol s = (if bol \<and> numbered_header_line s then Some 6 else None)"
  by (simp add: sections_re_def numbered_header_line_def lits_def rmatch_Lit rmatch_Digit
      startswith_Cons split: list.splits)

lemma rmatch_all_headers_re:
  "rmatch all_headers_re bol s = (if bol \<and> header_line s then Some 3 else None)"
  by (simp add: all_headers_re_def header_line_def lits_def rmatch_Lit
      startswith_Cons split: list.splits)

lemma rmatch_horizontal_rules_re:
  "rmatch horizontal_rules_re bol s =
     (if bol \<and> startswith ''---'' s \<and> (case drop 3 s of [] \<Rightarrow> True | x # t \<Rightarrow> x = newline)
      then Some 3 else None)"
  by (simp add: horizontal_rules_re_def lits_def rmatch_Lit rmatch_Eol
      startswith_Cons split: list.splits)

lemma separator_line_iff:
  "newline \<notin> set l \<Longrightarrow>
   separator_line l = (startswith ''---'' l \<and> (case drop 3 l of [] \<Rightarrow> True | x # t \<Rightarrow> x = newline))"
  by (auto simp: separator_line_def startswith_Cons split: list.splits)

lemma sections_re_items: "\<forall>i \<in> set sections_re. line_item i"
  by (simp add: sections_re_def lits_def newline_def)

lemma all_headers_re_items: "\<forall>i \<in> set all_headers_re. line_item i"
  by (simp add: all_headers_re_def lits_def newline_def)

lemma horizontal_rules_re_items: "\<forall>i \<in> set horizontal_rules_re. line_item i"
  by (simp add: horizontal_rules_re_def lits_def newline_def)

lemma sections_by_lines:
  "sections content = concat (map (hits sections_re) (split_lines content))"
  unfolding sections_def
proof (rule findall_by_lines)
  show "rmatch sections_re False s = None" for s
    by (simp add: rmatch_sections_re)
  show "0 < n" if "rmatch sections_re True s = Some n" for s n
    using that by (simp add: rmatch_sections_re split: if_splits)
  show "rmatch sections_re True (l @ newline # rest) = rmatch sections_re True l"
    if "newline \<notin> set l" for l rest
    using sections_re_items that by (rule rmatch_line_local)
qed

lemma all_headers_by_lines:
  "all_headers content = concat (map (hits all_headers_re) (split_lines content))"
  unfolding all_headers_def
proof (rule findall_by_lines)
  show "rmatch all_headers_re False s = None" for s
    by (simp add: rmatch_all_headers_re)
  show "0 < n" if "rmatch all_headers_re True s = Some n" for s n
    using that by (simp add: rmatch_all_headers_re split: if_splits)
  show "rmatch all_headers_re True (l @ newline # rest) = rmatch all_headers_re True l"
    if "newline \<notin> set l" for l rest
    using all_headers_re_items that by (rule rmatch_line_local)
qed

lemma horizontal_rules_by_lines:
  "findall horizontal_rules_re content = concat (map (hits horizontal_rules_re) (split_lines content))"
proof (rule findall_by_lines)
  show "rmatch horizontal_rules_re False s = None" for s
    by (simp add: rmatch_horizontal_rules_re)
  show "0 < n" if "rmatch horizontal_rules_re True s = Some n" for s n
    using that by (simp add: rmatch_horizontal_rules_re split: if_splits)
  show "rmatch horizontal_rules_re True (l @ newline # rest) = rmatch horizontal_rules_re True l"
    if "newline \<notin> set l" for l rest
    using horizontal_rules_re_items that by (rule rmatch_line_local)
qed

lemma length_sections: "length (sections content) = count_lines numbered_header_line content"
  unfolding count_lines_def sections_by_lines
  by (rule length_concat_hits) (simp add: hits_def rmatch_sections_re)

lemma length_all_headers: "length (all_headers content) = count_lines header_line content"
  unfolding count_lines_def all_headers_by_lines
  by (rule length_concat_hits) (simp add: hits_def rmatch_all_headers_re)

lemma length_filter_mono:
  "(\<And>x. P x \<Longrightarrow> Q x) \<Longrightarrow> length (filter P xs) \<le> length (filter Q xs)"
  by (induction xs) auto

lemma numbered_is_header: "numbered_header_line l \<Longrightarrow> header_line l"
  by (simp add: numbered_header_line_def header_line_def)


section \<open>The counts of the structural census\<close>

text \<open>
  C2. For every document the reported main-section count is the number of lines that match
  the numbered second-level header pattern: the header token, a single digit, a period
  and a space. The first line printed carries that number; it is K for a document with
  exactly K such lines, whatever surrounds them, and 0 for a document with none.
\<close>

theorem main_sections_count:
  "length (sections content) = count_lines numbered_header_line content \<and>
   hd (final_verify content) =
     check_mark @ '' Number of main sections: ''
       @ str_nat (count_lines numbered_header_line content)"
  by (simp add: length_sections final_verify_def Let_def print_def)

theorem main_sections_count_witness:
  "length (sections example_document) = 2 \<and>
   hd (final_verify example_document) = check_mark @ '' Number of main sections: 2''"
proof -
  have "count_lines numbered_header_line example_document = 2"
    by code_simp
  moreover have "str_nat 2 = ''2''"
    by code_simp
  ultimately show ?thesis
    using main_sections_count [of example_document] by simp
qed

text \<open>
  C7. For every document the reported horizontal-rule count is the number of lines that
  are exactly the separator token \<^verbatim>\<open>---\<close>, and the census prints it; it is 0 when the
  document has no such line.
\<close>

theorem horizontal_rules_count:
  "horizontal_rules content = count_lines separator_line content \<and>
   check_mark @ '' Horizontal rule separators: ''
       @ str_nat (count_lines separator_line content) \<in> set (final_verify content)"
proof -
  have "horizontal_rules content = count_lines separator_line content"
    unfolding count_lines_def horizontal_rules_def horizontal_rules_by_lines
    by (rule length_concat_hits)
       (simp add: hits_def rmatch_horizontal_rules_re
          separator_line_iff [OF split_lines_no_newlines])
  then show ?thesis
    by (simp add: final_verify_def Let_def print_def)
qed

theorem horizontal_rules_count_witness:
  "horizontal_rules example_document = 2 \<and> horizontal_rules ''no rule here'' = 0"
proof -
  have "count_lines separator_line example_document = 2"
    and "count_lines separator_line ''no rule here'' = 0"
    by code_simp+
  then show ?thesis
    using horizontal_rules_count [of example_document]
      horizontal_rules_count [of "''no rule here''"] by simp
qed

text \<open>
  C9. For every document the reported main-section count is at most the reported total
  header count: a line that matches the numbered header pattern also starts with the
  header token. The two numbers are those of the first two lines printed.
\<close>

theorem main_sections_le_all_headers:
  "length (sections content) \<le> length (all_headers content) \<and>
   take 2 (final_verify content) =
     [check_mark @ '' Number of main sections: '' @ str_nat (length (sections content)),
      check_mark @ '' Total headers (##): '' @ str_nat (length (all_headers content))]"
proof -
  have "length (sections content) \<le> length (all_headers content)"
    unfolding length_sections length_all_headers count_lines_def
    by (rule length_filter_mono) (rule numbered_is_header)
  then show ?thesis
    by (simp add: final_verify_def Let_def print_def)
qed

theorem main_sections_le_all_headers_witness:
  "length (sections example_document) \<le> length (all_headers example_document) \<and>
   length (all_headers example_document) = 3"
proof -
  have "length (all_headers example_document) = 3"
    by code_simp
  then show ?thesis
    using main_sections_le_all_headers [of example_document] by simp
qed

section \<open>The lines the structural census prints\<close>

lemma str_nat_digits: "set (str_nat n) \<subseteq> set ''0123456789''"
proof (induction n rule: str_nat.induct)
  case (1 n)
  have d: "''0123456789'' ! k \<in> set ''0123456789''" if "k < 10" for k
    using that by (intro nth_mem) simp
  show ?case
  proof (cases "n < 10")
    case True
    with d[of n] show ?thesis by (subst str_nat.simps) simp
  next
    case False
    with 1 d[of "n mod 10"] show ?thesis by (subst str_nat.simps) simp
  qed
qed

lemma contains_append_notin:
  "c \<notin> set xs \<Longrightarrow> contains (c # sub) (xs @ ys) = contains (c # sub) ys"
  by (induction xs) auto

lemma contains_notin: "c \<notin> set xs \<Longrightarrow> \<not> contains (c # sub) xs"
  using contains_append_notin[of c xs sub "[]"] by simp

lemma contains_str_nat_append:
  "c \<notin> set ''0123456789'' \<Longrightarrow> contains (c # sub) (str_nat n @ ys) = contains (c # sub) ys"
  using str_nat_digits[of n] by (intro contains_append_notin) blast

lemma contains_str_nat:
  "c \<notin> set ''0123456789'' \<Longrightarrow> \<not> contains (c # sub) (str_nat n)"
  using str_nat_digits[of n] by (intro contains_notin) blast


lemma mem_if_single: "(l \<in> set (if c then [x] else [])) = (c \<and> l = x)"
  by (cases c) simp_all

lemma final_verify_lines:
  "final_verify content =
     [check_mark @ '' Number of main sections: '' @ str_nat (length (sections content)),
      check_mark @ '' Total headers (##): '' @ str_nat (length (all_headers content))] @
     (if contains ''## Table of Contents'' content then [toc_line] else []) @
     (if contains ''**Version:**'' content \<and> contains ''**Organization:**'' content
           \<and> contains ''**Date:**'' content
      then [metadata_line] else []) @
     (if contains ''## Abstract'' content then [check_mark @ '' Abstract present''] else []) @
     [check_mark @ '' Sections with metadata: ''
         @ str_nat (sections_with_metadata content) @ ''/7'',
      check_mark @ '' Horizontal rule separators: '' @ str_nat (horizontal_rules content),
      check_mark @ '' Total lines: '' @ str_nat (lines content)] @
     (if endswith '']'' (rstrip content) \<or> contains ''Reference:'' (last200 content)
      then [check_mark @ '' File ends with proper content''] else []) @
     summary (lines content)"
  by (simp add: final_verify_def Let_def print_def)

lemma final_verify_mem:
  "(l \<in> set (final_verify content)) =
     (l = check_mark @ '' Number of main sections: '' @ str_nat (length (sections content)) \<or>
      l = check_mark @ '' Total headers (##): '' @ str_nat (length (all_headers content)) \<or>
      (contains ''## Table of Contents'' content \<and> l = toc_line) \<or>
      ((contains ''**Version:**'' content \<and> contains ''**Organization:**'' content
           \<and> contains ''**Date:**'' content) \<and> l = metadata_line) \<or>
      (contains ''## Abstract'' content \<and> l = check_mark @ '' Abstract present'') \<or>
      l = check_mark @ '' Sections with metadata: ''
         @ str_nat (sections_with_metadata content) @ ''/7'' \<or>
      l = check_mark @ '' Horizontal rule separators: '' @ str_nat (horizontal_rules content) \<or>
      l = check_mark @ '' Total lines: '' @ str_nat (lines content) \<or>
      ((endswith '']'' (rstrip content) \<or> contains ''Reference:'' (last200 content))
         \<and> l = check_mark @ '' File ends with proper content'') \<or>
      l = ''\<newline>'' @ check_box @ '' AGENTS.md file is complete and well-formed!'' \<or>
      l = ''\<newline>'' @ bar_chart @ '' Summary:'' \<or>
      l = ''   - 7 main sections'' \<or>
      l = ''   - 23 rules total'' \<or>
      l = ''   - '' @ str_nat (lines content) @ '' lines'' \<or>
      l = ''   - All rules properly formatted and organized'')"
  unfolding final_verify_lines summary_def set_append mem_if_single Un_iff
  by (simp only: list.set insert_iff empty_iff disj_assoc simp_thms)


lemmas line_defs = metadata_line_def toc_line_def summary_def check_mark_def check_box_def
  bar_chart_def



lemma other_lines_no_metadata:
  "l \<in> set (final_verify content) \<Longrightarrow> l \<noteq> metadata_line \<Longrightarrow>
   \<not> contains ''Header metadata'' l"
  unfolding final_verify_mem
  by (elim disjE conjE) (simp_all add: line_defs contains_str_nat contains_str_nat_append)

lemma other_lines_no_toc:
  "l \<in> set (final_verify content) \<Longrightarrow> l \<noteq> toc_line \<Longrightarrow>
   \<not> contains ''Table of Contents'' l"
  unfolding final_verify_mem
  by (elim disjE conjE) (simp_all add: line_defs contains_str_nat contains_str_nat_append)

text \<open>
  C5. The combined metadata-label check prints its success line if and only if the three
  labels \<^verbatim>\<open>**Version:**\<close>, \<^verbatim>\<open>**Organization:**\<close> and \<^verbatim>\<open>**Date:**\<close> all occur in the
  document; when one of them is missing, no line of the output mentions the header
  metadata at all.
\<close>

theorem metadata_check:
  "(metadata_line \<in> set (final_verify content)) =
     (contains ''**Version:**'' content \<and> contains ''**Organization:**'' content
        \<and> contains ''**Date:**'' content) \<and>
   (if contains ''**Version:**'' content \<and> contains ''**Organization:**'' content
        \<and> contains ''**Date:**'' content
    then metadata_line \<in> set (final_verify content)
    else \<forall>l \<in> set (final_verify content). \<not> contains ''Header metadata'' l)"
proof -
  have iff: "(metadata_line \<in> set (final_verify content)) =
     (contains ''**Version:**'' content \<and> contains ''**Organization:**'' content
        \<and> contains ''**Date:**'' content)"
    unfolding final_verify_mem by (simp add: line_defs)
  moreover have "\<forall>l \<in> set (final_verify content). \<not> contains ''Header metadata'' l"
    if "metadata_line \<notin> set (final_verify content)"
    using that other_lines_no_metadata [of _ content] by blast
  ultimately show ?thesis by simp
qed

theorem metadata_check_witness:
  "metadata_line \<in> set (final_verify ''**Version:** 1 **Organization:** E **Date:** D'') \<and>
   metadata_line \<notin> set (final_verify ''**Organization:** E **Date:** D'') \<and>
   metadata_line \<notin> set (final_verify ''**Version:** 1 **Date:** D'') \<and>
   metadata_line \<notin> set (final_verify ''**Version:** 1 **Organization:** E'')"
proof -
  have "contains ''**Version:**'' ''**Version:** 1 **Organization:** E **Date:** D''"
    and "contains ''**Organization:**'' ''**Version:** 1 **Organization:** E **Date:** D''"
    and "contains ''**Date:**'' ''**Version:** 1 **Organization:** E **Date:** D''"
    and "\<not> contains ''**Version:**'' ''**Organization:** E **Date:** D''"
    and "\<not> contains ''**Organization:**'' ''**Version:** 1 **Date:** D''"
    and "\<not> contains ''**Date:**'' ''**Version:** 1 **Organization:** E''"
    by code_simp+
  then show ?thesis
    using metadata_check [of "''**Version:** 1 **Organization:** E **Date:** D''"]
      metadata_check [of "''**Organization:** E **Date:** D''"]
      metadata_check [of "''**Version:** 1 **Date:** D''"]
      metadata_check [of "''**Version:** 1 **Organization:** E''"]
    by simp
qed

text \<open>
  C6. The table-of-contents line is printed if and only if the marker
  \<^verbatim>\<open>## Table of Contents\<close> occurs verbatim in the document. When it does not occur (a
  near miss in capitalisation included), no line of the output mentions a table of
  contents: absence is not reported.
\<close>

theorem toc_check:
  "(toc_line \<in> set (final_verify content)) = contains ''## Table of Contents'' content \<and>
   (if contains ''## Table of Contents'' content
    then toc_line \<in> set (final_verify content)
    else \<forall>l \<in> set (final_verify content). \<not> contains ''Table of Contents'' l)"
proof -
  have iff: "(toc_line \<in> set (final_verify content)) =
      contains ''## Table of Contents'' content"
    unfolding final_verify_mem by (simp add: line_defs)
  moreover have "\<forall>l \<in> set (final_verify content). \<not> contains ''Table of Contents'' l"
    if "toc_line \<notin> set (final_verify content)"
    using that other_lines_no_toc [of _ content] by blast
  ultimately show ?thesis by simp
qed

theorem toc_check_witness:
  "toc_line \<in> set (final_verify example_document) \<and>
   toc_line \<notin> set (final_verify ''# Guide\<newline>## Table Of Contents\<newline>'')"
proof -
  have "contains ''## Table of Contents'' example_document"
    and "\<not> contains ''## Table of Contents'' ''# Guide\<newline>## Table Of Contents\<newline>''"
    by code_simp+
  then show ?thesis
    using toc_check [of example_document]
      toc_check [of "''# Guide\<newline>## Table Of Contents\<newline>''"]
    by simp
qed

text \<open>
  C10. For every document the structural census ends with the same six prints: the
  completion banner, the summary heading and four summary lines, of which
  \<^verbatim>\<open>7 main sections\<close> and \<^verbatim>\<open>23 rules total\<close> are literal constants that do not depend on
  any count of the scan; only the line count is filled in.
\<close>

theorem summary_unconditional:
  "drop (length (final_verify content) - 6) (final_verify content) =
     [''\<newline>'' @ check_box @ '' AGENTS.md file is complete and well-formed!'',
      ''\<newline>'' @ bar_chart @ '' Summary:'',
      ''   - 7 main sections'',
      ''   - 23 rules total'',
      ''   - '' @ str_nat (lines content) @ '' lines'',
      ''   - All rules properly formatted and organized'']"
proof -
  have "\<exists>pre. final_verify content = pre @ summary (lines content)"
    unfolding final_verify_def Let_def by (rule exI) (rule refl)
  then obtain pre where pre: "final_verify content = pre @ summary (lines content)" ..
  have len: "length (summary (lines content)) = 6"
    by (simp add: summary_def)
  have "drop (length (pre @ summary (lines content)) - 6) (pre @ summary (lines content))
      = summary (lines content)"
    using len by simp
  then show ?thesis
    unfolding pre summary_def .
qed

theorem summary_unconditional_witness:
  "length (sections ''no header here'') = 0 \<and>
   ''   - 7 main sections'' \<in> set (final_verify ''no header here'') \<and>
   ''   - 23 rules total'' \<in> set (final_verify ''no header here'')"
proof -
  have "length (sections ''no header here'') = 0"
    by code_simp
  moreover have "''   - 7 main sections''
      \<in> set (drop (length (final_verify ''no header here'') - 6)
            (final_verify ''no header here''))"
    and "''   - 23 rules total''
      \<in> set (drop (length (final_verify ''no header here'') - 6)
            (final_verify ''no header here''))"
    unfolding summary_unconditional [of "''no header here''"] by simp_all
  ultimately show ?thesis
    by (blast dest: in_set_dropD)
qed

section \<open>Repeated runs\<close>

text \<open>
  C8. Both passes are deterministic functions of the document text and the fixed schema.
  A run reads \<^verbatim>\<open>AGENTS.md\<close> and changes no file, so its result is determined by that file
  alone: two worlds that agree on it give the same output, and a second run, started in
  the world the first run left, writes the same bytes again.
\<close>

theorem runs_deterministic:
  assumes "files w' ''AGENTS.md'' = files w ''AGENTS.md''"
  shows "fst (run_final_verify w') = fst (run_final_verify w) \<and>
    fst (run_verify_sections w') = fst (run_verify_sections w) \<and>
    snd (run_final_verify w) = w \<and> snd (run_verify_sections w) = w \<and>
    fst (run_final_verify (snd (run_final_verify w))) = fst (run_final_verify w) \<and>
    fst (run_verify_sections (snd (run_verify_sections w))) = fst (run_verify_sections w)"
  using assms
  by (simp add: run_final_verify_def run_verify_sections_def read_file_def
      split: option.splits)

theorem runs_deterministic_witness:
  "fst (run_final_verify
      \<lparr>files = [''AGENTS.md'' \<mapsto> example_document, ''README.md'' \<mapsto> ''x'']\<rparr>) =
   fst (run_final_verify \<lparr>files = [''AGENTS.md'' \<mapsto> example_document]\<rparr>) \<and>
   fst (run_verify_sections (snd (run_verify_sections
      \<lparr>files = [''AGENTS.md'' \<mapsto> example_document]\<rparr>))) =
   fst (run_verify_sections \<lparr>files = [''AGENTS.md'' \<mapsto> example_document]\<rparr>)"
proof -
  have "files \<lparr>files = [''AGENTS.md'' \<mapsto> example_document, ''README.md'' \<mapsto> ''x'']\<rparr>
      ''AGENTS.md'' = files \<lparr>files = [''AGENTS.md'' \<mapsto> example_document]\<rparr> ''AGENTS.md''"
    by simp
  from runs_deterministic [OF this] show ?thesis by simp
qed

section \<open>The catalog membership check\<close>

lemma check_rules_eq:
  "check_rules content rules (out, n) =
     (out @ map (report content) rules, n + length (filter (present content) rules))"
  by (induction rules arbitrary: out n) (simp_all add: report_def present_def print_def)

lemma check_sections_eq:
  "check_sections content cat (out, n) =
     (out @ concat (map (\<lambda>(prefix, rules). category_line prefix rules
                            # map (report content) rules) cat),
      n + length (filter (present content) (concat (map snd cat))))"
  by (induction cat arbitrary: out n) (auto simp: check_rules_eq print_def)

lemma scan_catalog_eq:
  "scan_catalog content =
     ([''Verifying all rules are present in AGENTS.md:'', replicate 60 (CHR ''='')] @
      concat (map (\<lambda>(prefix, rules). category_line prefix rules
                            # map (report content) rules) sections_catalog),
      length (filter (present content) all_rules))"
  by (simp add: scan_catalog_def Let_def print_def check_sections_eq all_rules_def)

lemma verify_sections_eq:
  "verify_sections content =
     [''Verifying all rules are present in AGENTS.md:'', replicate 60 (CHR ''='')] @
     concat (map (\<lambda>(prefix, rules). category_line prefix rules
                            # map (report content) rules) sections_catalog) @
     [''\<newline>'' @ replicate 60 (CHR ''=''),
      ''Total rules found: '' @ str_nat (length (filter (present content) all_rules)) @ ''/23'']"
  by (simp add: verify_sections_def scan_catalog_eq print_def)

lemma total_rules_eq: "total_rules content = length (filter (present content) all_rules)"
  by (simp add: total_rules_def scan_catalog_eq)

lemma catalog_lines_mem:
  "(l \<in> set (concat (map (\<lambda>(prefix, rules). category_line prefix rules
                            # map (report content) rules) cat))) =
     ((\<exists>(prefix, rules) \<in> set cat. l = category_line prefix rules) \<or>
      (\<exists>rule \<in> set (concat (map snd cat)). l = report content rule))"
  by (induction cat) auto

lemma verify_sections_mem:
  "(l \<in> set (verify_sections content)) =
     (l = ''Verifying all rules are present in AGENTS.md:'' \<or>
      l = replicate 60 (CHR ''='') \<or>
      (\<exists>(prefix, rules) \<in> set sections_catalog. l = category_line prefix rules) \<or>
      (\<exists>rule \<in> set all_rules. l = report content rule) \<or>
      l = ''\<newline>'' @ replicate 60 (CHR ''='') \<or>
      l = ''Total rules found: '' @ str_nat (length (filter (present content) all_rules)) @ ''/23'')"
  unfolding verify_sections_eq set_append catalog_lines_mem all_rules_def Un_iff
  by (simp only: list.set insert_iff empty_iff disj_assoc simp_thms)

lemma length_all_rules: "length all_rules = 23"
  by (simp add: all_rules_def sections_catalog_def)

lemma distinct_all_rules: "distinct all_rules"
  by (simp add: all_rules_def sections_catalog_def)

lemma all_rules_no_newline: "\<forall>rule \<in> set all_rules. newline \<notin> set rule"
  by (simp add: all_rules_def sections_catalog_def newline_def)

lemma startswith_line:
  "newline \<notin> set sub \<Longrightarrow> startswith sub (l @ newline # rest) = startswith sub l"
  by (induction sub l rule: startswith.induct) auto

lemma contains_line_split:
  "newline \<notin> set sub \<Longrightarrow> sub \<noteq> [] \<Longrightarrow>
   contains sub (l @ newline # rest) = (contains sub l \<or> contains sub rest)"
proof (induction l)
  case Nil
  then show ?case by (cases sub) auto
next
  case (Cons x l)
  from Cons.prems(1) have "startswith sub ((x # l) @ newline # rest) = startswith sub (x # l)"
    by (rule startswith_line)
  with Cons show ?case by auto
qed

lemma contains_document_lines:
  "newline \<notin> set sub \<Longrightarrow> sub \<noteq> [] \<Longrightarrow>
   contains sub (concat (map (\<lambda>rule. ''## '' @ f rule @ ''\<newline>'') rules)) =
     (\<exists>rule \<in> set rules. contains sub (''## '' @ f rule))"
proof (induction rules)
  case Nil
  then show ?case by simp
next
  case (Cons r rules)
  have "contains sub ((''## '' @ f r) @ newline # concat (map (\<lambda>rule. ''## '' @ f rule @ ''\<newline>'') rules))
      = (contains sub (''## '' @ f r) \<or> contains sub (concat (map (\<lambda>rule. ''## '' @ f rule @ ''\<newline>'') rules)))"
    using Cons.prems by (rule contains_line_split)
  with Cons show ?case by (simp add: newline_def)
qed

lemma present_document_with:
  "rule \<in> set all_rules \<Longrightarrow>
   present (document_with f) rule = (\<exists>r \<in> set all_rules. contains (''## '' @ rule) (''## '' @ f r))"
  unfolding present_def document_with_def
  using all_rules_no_newline
  by (intro contains_document_lines) (auto simp: newline_def)


lemma altered_document_eq:
  "altered_document =
     document_with (\<lambda>r. if r = ''Use Embroider Static Mode'' then r @ ''!'' else r)"
  by (simp add: altered_document_def document_with_def all_rules_def sections_catalog_def)


lemma str_nat_22: "str_nat 22 = ''22''"
  by (simp add: str_nat.simps)

lemma str_nat_23: "str_nat 23 = ''23''"
  by (simp add: str_nat.simps)

lemma startswith_replicate: "x \<noteq> c \<Longrightarrow> \<not> startswith (x # ps) (replicate n c)"
  by (cases n) auto

lemmas report_defs = found_line_def missing_line_def category_line_def missing_prefix_def
  check_mark_def cross_mark_def

lemma found_line_inj [simp]: "(found_line r = found_line r') = (r = r')"
  by (simp add: report_defs)

lemma missing_line_inj [simp]: "(missing_line r = missing_line r') = (r = r')"
  by (simp add: report_defs)

lemma found_not_missing [simp]: "found_line r \<noteq> missing_line r'"
  by (simp add: report_defs)

lemma missing_not_found [simp]: "missing_line r \<noteq> found_line r'"
  by (simp add: report_defs)

lemma Cons_neq_replicate: "x \<noteq> c \<Longrightarrow> x # xs \<noteq> replicate n c"
  by (cases n) auto

lemma missing_line_mem:
  "(missing_line r \<in> set (verify_sections content)) =
     (\<exists>rule \<in> set all_rules. missing_line r = report content rule)"
  unfolding verify_sections_mem
  by (auto simp: report_defs Cons_neq_replicate)

lemma found_line_mem:
  "(found_line r \<in> set (verify_sections content)) =
     (\<exists>rule \<in> set all_rules. found_line r = report content rule)"
  unfolding verify_sections_mem
  by (auto simp: report_defs Cons_neq_replicate)

lemma missing_line_mem_iff:
  "(missing_line r \<in> set (verify_sections content)) =
     (r \<in> set all_rules \<and> \<not> contains (''## '' @ r) content)"
  unfolding missing_line_mem by (auto simp: report_def present_def)

lemma found_line_mem_iff:
  "(found_line r \<in> set (verify_sections content)) =
     (r \<in> set all_rules \<and> contains (''## '' @ r) content)"
  unfolding found_line_mem by (auto simp: report_def present_def)

lemma last_verify_sections:
  "last (verify_sections content) =
     ''Total rules found: '' @ str_nat (length (filter (present content) all_rules)) @ ''/23''"
  unfolding verify_sections_eq by simp

lemma startswith_missing_prefix:
  "l \<in> set (verify_sections content) \<Longrightarrow> startswith missing_prefix l \<Longrightarrow>
   \<exists>rule \<in> set all_rules. \<not> contains (''## '' @ rule) content"
  unfolding verify_sections_mem
  by (auto simp: report_defs report_def present_def startswith_replicate split: if_splits)

lemma report_lines_in_order:
  "filter (startswith ''  '') (concat (map (\<lambda>(prefix, rules). category_line prefix rules
                            # map (report content) rules) cat)) =
     map (report content) (concat (map snd cat))"
  by (induction cat) (auto simp: report_defs report_def filter_id_conv)

lemma filter_report_lines:
  "filter (startswith ''  '') (verify_sections content) = map (report content) all_rules"
  unfolding verify_sections_eq filter_append report_lines_in_order all_rules_def
  by (simp add: startswith_replicate)

lemma filter_neq_notin: "x \<notin> set xs \<Longrightarrow> filter (\<lambda>y. y \<noteq> x) xs = xs"
  by (induction xs) auto

lemma length_filter_all_but_one:
  "distinct xs \<Longrightarrow> x \<in> set xs \<Longrightarrow> length (filter (\<lambda>y. y \<noteq> x) xs) = length xs - 1"
proof (induction xs)
  case Nil
  then show ?case by simp
next
  case (Cons a xs)
  show ?case
  proof (cases "a = x")
    case True
    with Cons.prems show ?thesis by (simp add: filter_neq_notin)
  next
    case False
    with Cons.prems have "x \<in> set xs" by simp
    with Cons False length_pos_if_in_set [OF this] show ?thesis by simp
  qed
qed

lemma startswith_append: "startswith p s \<Longrightarrow> startswith (q @ p) (q @ s)"
  by (induction q) auto

lemma startswith_contains: "startswith sub s \<Longrightarrow> contains sub s"
  by (cases s) (auto elim: startswith.elims)

lemma present_document_with_prefix:
  assumes "rule \<in> set all_rules" and "startswith rule (f rule)"
  shows "contains (''## '' @ rule) (document_with f)"
proof -
  from assms(2) have "contains (''## '' @ rule) (''## '' @ f rule)"
    by (intro startswith_contains startswith_append)
  with assms(1) have "present (document_with f) rule"
    unfolding present_document_with [OF assms(1)] by blast
  then show ?thesis by (simp add: present_def)
qed

lemma startswith_self_append [simp]: "startswith r (r @ s)"
  by (induction r) auto

lemma startswith_refl [simp]: "startswith r r"
  by (induction r) auto

text \<open>
  C3. Applied to a document that contains every expected title rendered as a sub-header
  (\<^verbatim>\<open>## \<close> followed by the exact title), the catalog check finds all 23 titles, the sum
  over the seven categories, prints \<^verbatim>\<open>Total rules found: 23/23\<close> and lists no missing
  entry.
\<close>

theorem catalog_all_present:
  assumes "\<forall>rule \<in> set all_rules. contains (''## '' @ rule) content"
  shows "total_rules content = 23 \<and> length all_rules = 23 \<and> length sections_catalog = 7 \<and>
    last (verify_sections content) = ''Total rules found: 23/23'' \<and>
    (\<forall>l \<in> set (verify_sections content). \<not> startswith missing_prefix l)"
proof -
  from assms have "filter (present content) all_rules = all_rules"
    by (simp add: present_def filter_id_conv)
  then have n: "length (filter (present content) all_rules) = 23"
    by (simp add: length_all_rules)
  have "\<not> startswith missing_prefix l" if "l \<in> set (verify_sections content)" for l
    using startswith_missing_prefix [OF that] assms by blast
  with n show ?thesis
    by (simp add: total_rules_eq last_verify_sections length_all_rules str_nat_23
        sections_catalog_def)
qed

theorem catalog_all_present_witness:
  "total_rules (document_with id) = 23 \<and>
   last (verify_sections (document_with id)) = ''Total rules found: 23/23''"
proof -
  have "contains (''## '' @ rule) (document_with id)" if "rule \<in> set all_rules" for rule
    using that by (rule present_document_with_prefix) simp
  then have "\<forall>rule \<in> set all_rules. contains (''## '' @ rule) (document_with id)"
    by blast
  from catalog_all_present [OF this] show ?thesis by simp
qed

text \<open>
  C4, as stated, fails: a heading altered by trailing punctuation still contains the
  sub-header rendering of its title as a substring, so the title is reported found.
\<close>

theorem altered_title_still_found:
  "''## Use Embroider Static Mode!'' \<in> set (split_lines altered_document) \<and>
   ''## Use Embroider Static Mode'' \<notin> set (split_lines altered_document) \<and>
   found_line ''Use Embroider Static Mode'' \<in> set (verify_sections altered_document) \<and>
   missing_line ''Use Embroider Static Mode'' \<notin> set (verify_sections altered_document) \<and>
   last (verify_sections altered_document) = ''Total rules found: 23/23''"
proof -
  have lines: "''## Use Embroider Static Mode!'' \<in> set (split_lines altered_document) \<and>
      ''## Use Embroider Static Mode'' \<notin> set (split_lines altered_document)"
    by code_simp
  have "contains (''## '' @ rule) altered_document" if "rule \<in> set all_rules" for rule
    unfolding altered_document_eq using that by (rule present_document_with_prefix) simp
  then have all: "\<forall>rule \<in> set all_rules. contains (''## '' @ rule) altered_document"
    by blast
  then have "filter (present altered_document) all_rules = all_rules"
    by (simp add: present_def filter_id_conv)
  then have "length (filter (present altered_document) all_rules) = 23"
    by (simp add: length_all_rules)
  moreover have "''Use Embroider Static Mode'' \<in> set all_rules"
    by (simp add: all_rules_def sections_catalog_def)
  ultimately show ?thesis
    using lines all
    by (simp add: found_line_mem_iff missing_line_mem_iff last_verify_sections str_nat_23)
qed

text \<open>
  C4, amended. The check is literal substring containment of \<^verbatim>\<open>## \<close> followed by the
  title, with no normalisation, and it never stops early: for every document the report
  lines are one per expected title, in the declared order. A title is reported missing
  exactly when that rendering does not occur in the document. So when the rendering of
  exactly one expected title occurs nowhere in the document, that title is reported
  missing, every other title is reported found and not missing, and the total is 22/23.
\<close>

theorem catalog_one_missing:
  assumes "rule \<in> set all_rules"
    and "\<not> contains (''## '' @ rule) content"
    and "\<forall>r \<in> set all_rules. r \<noteq> rule \<longrightarrow> contains (''## '' @ r) content"
  shows "filter (startswith ''  '') (verify_sections content) = map (report content) all_rules \<and>
    missing_line rule \<in> set (verify_sections content) \<and>
    found_line rule \<notin> set (verify_sections content) \<and>
    (\<forall>r \<in> set all_rules. r \<noteq> rule \<longrightarrow>
       found_line r \<in> set (verify_sections content) \<and>
       missing_line r \<notin> set (verify_sections content)) \<and>
    total_rules content = 22 \<and>
    last (verify_sections content) = ''Total rules found: 22/23''"
proof -
  from assms have "filter (present content) all_rules = filter (\<lambda>r. r \<noteq> rule) all_rules"
    by (intro filter_cong) (auto simp: present_def)
  with assms(1) have n: "length (filter (present content) all_rules) = 22"
    by (simp add: length_filter_all_but_one distinct_all_rules length_all_rules)
  from assms n show ?thesis
    by (simp add: filter_report_lines missing_line_mem_iff found_line_mem_iff total_rules_eq
        last_verify_sections str_nat_22)
qed

theorem catalog_one_missing_witness:
  "missing_line ''Use Embroider Static Mode'' \<in> set (verify_sections recased_document) \<and>
   found_line ''Lazy Load Heavy Dependencies'' \<in> set (verify_sections recased_document) \<and>
   last (verify_sections recased_document) = ''Total rules found: 22/23''"
proof -
  have r: "''Use Embroider Static Mode'' \<in> set all_rules"
    and l: "''Lazy Load Heavy Dependencies'' \<in> set all_rules"
    by (simp_all add: all_rules_def sections_catalog_def)
  have "(\<exists>r \<in> set all_rules. contains (''## Use Embroider Static Mode'')
          (''## '' @ (if r = ''Use Embroider Static Mode''
                      then ''Use Embroider static Mode'' else r))) = False"
    by code_simp
  with present_document_with [OF r]
  have absent: "\<not> contains (''## '' @ ''Use Embroider Static Mode'') recased_document"
    by (simp add: recased_document_def present_def)
  have "contains (''## '' @ rule) recased_document"
    if "rule \<in> set all_rules" and "rule \<noteq> ''Use Embroider Static Mode''" for rule
    unfolding recased_document_def using that by (intro present_document_with_prefix) simp_all
  then have others: "\<forall>r \<in> set all_rules. r \<noteq> ''Use Embroider Static Mode''
      \<longrightarrow> contains (''## '' @ r) recased_document"
    by blast
  from catalog_one_missing [OF r absent others] l show ?thesis by simp
qed

section \<open>Sections with a metadata block\<close>

lemma rmatch_no_Bol: "Bol \<notin> set p \<Longrightarrow> rmatch p b s = rmatch p False s"
  by (induction p b s rule: rmatch.induct) simp_all

lemma findall_from_no_Bol:
  "Bol \<notin> set p \<Longrightarrow> findall_from p k b s = findall_from p k False s"
  using rmatch_no_Bol [of p b s] by (cases s) simp_all

lemma findall_from_skip:
  "Bol \<notin> set p \<Longrightarrow> k \<le> length s \<Longrightarrow>
   findall_from p k b s = findall_from p 0 False (drop k s)"
proof (induction s arbitrary: k b)
  case Nil
  then show ?case using findall_from_no_Bol [of p 0 b "[]"] by simp
next
  case (Cons c s)
  show ?case
  proof (cases k)
    case 0
    with Cons.prems show ?thesis using findall_from_no_Bol [of p 0 b "c # s"] by simp
  next
    case (Suc j)
    with Cons.prems Cons.IH [of j "c = newline"] show ?thesis by simp
  qed
qed

lemma rmatch_only_lits:
  "rmatch (lits m) bol s = (if startswith m s then Some (length m) else None)"
  using rmatch_lits [of m "[]" bol s] by simp

lemma rmatch_lazy_lits_Nil: "rmatch (LazyAnyPlus # lits m) bol [] = None"
  by simp

lemma rmatch_lazy_lits:
  "rmatch (LazyAnyPlus # lits m) bol (c # rest) =
     map_option (\<lambda>k. Suc (k + length m)) (find_sub m rest)"
proof (induction rest arbitrary: c bol)
  case Nil
  show ?case by (cases m) (simp_all add: rmatch_only_lits)
next
  case (Cons x rest)
  have step: "rmatch (LazyAnyPlus # lits m) bol (c # x # rest) =
      (case rmatch (lits m) (c = newline) (x # rest) of
         Some n \<Rightarrow> Some (Suc n)
       | None \<Rightarrow> map_option Suc (rmatch (LazyAnyPlus # lits m) (c = newline) (x # rest)))"
    by (rule rmatch.simps)
  show ?case
    unfolding step Cons.IH rmatch_only_lits
    by (simp add: option.map_comp comp_def)
qed

lemma Suc6: "(\<lambda>x. Suc (Suc (Suc (Suc (Suc (Suc x)))))) = (\<lambda>n. n + 6)"
  by (simp add: fun_eq_iff)

lemma rmatch_header_prefix:
  "rmatch (lits ''## '' @ [Digit] @ lits ''. '' @ p) bol s =
     (if numbered_header_line s then map_option (\<lambda>n. n + 6) (rmatch p False (drop 6 s))
      else None)"
  by (simp add: numbered_header_line_def lits_def rmatch_Lit rmatch_Digit
      startswith_Cons newline_def option.map_comp comp_def Suc6 split: list.splits)

lemma rmatch_section_pattern:
  "rmatch section_pattern bol s =
     (if numbered_header_line s
      then (case drop 6 s of [] \<Rightarrow> None
            | c # rest \<Rightarrow> map_option (\<lambda>k. 20 + k) (find_sub impact_marker rest))
      else None)"
proof -
  have eq: "section_pattern =
      lits ''## '' @ [Digit] @ lits ''. '' @ (LazyAnyPlus # lits impact_marker)"
    by (simp add: section_pattern_def impact_marker_def)
  have len: "length impact_marker = 13"
    by (simp add: impact_marker_def)
  show ?thesis
    unfolding eq rmatch_header_prefix
    by (simp add: rmatch_lazy_lits rmatch_lazy_lits_Nil len option.map_comp comp_def
        del: rmatch.simps
        split: list.splits)
qed


lemma find_sub_startswith:
  "find_sub m s = Some k \<Longrightarrow> startswith m (drop k s)"
proof (induction s arbitrary: k)
  case Nil
  then show ?case by (simp split: if_splits)
next
  case (Cons c s)
  then show ?case by (auto split: if_splits)
qed

lemma startswith_length: "startswith m s \<Longrightarrow> length m \<le> length s"
  by (induction m s rule: startswith.induct) auto

lemma find_sub_length: "find_sub m s = Some k \<Longrightarrow> k + length m \<le> length s"
proof (induction s arbitrary: k)
  case Nil
  then show ?case by (simp split: if_splits)
next
  case (Cons c s)
  then show ?case using startswith_length [of m "c # s"] by (auto split: if_splits)
qed

lemma find_sub_first:
  "find_sub m s = Some k \<Longrightarrow> startswith m (drop j s) \<Longrightarrow> j \<le> length s \<Longrightarrow> k \<le> j"
proof (induction s arbitrary: k j)
  case Nil
  then show ?case by (simp split: if_splits)
next
  case (Cons c s)
  show ?case
  proof (cases j)
    case 0
    with Cons.prems show ?thesis by simp
  next
    case (Suc i)
    with Cons.prems Cons.IH [of _ i] show ?thesis by (auto split: if_splits)
  qed
qed

lemma count_sub_drop: "count_sub m (drop i s) \<le> count_sub m s"
proof (induction s arbitrary: i)
  case Nil
  then show ?case by simp
next
  case (Cons c s)
  show ?case
  proof (cases i)
    case 0
    then show ?thesis by simp
  next
    case (Suc j)
    with Cons.IH [of j] show ?thesis by simp
  qed
qed

lemma count_sub_occurrence:
  "startswith m (drop j s) \<Longrightarrow> j < length s \<Longrightarrow>
   Suc (count_sub m (drop (Suc j) s)) \<le> count_sub m s"
proof (induction s arbitrary: j)
  case Nil
  then show ?case by simp
next
  case (Cons c s)
  show ?case
  proof (cases j)
    case 0
    with Cons.prems show ?thesis by simp
  next
    case (Suc i)
    with Cons.prems Cons.IH [of i] show ?thesis by simp
  qed
qed

subsection \<open>The scan for the section pattern, one step at a time\<close>

lemma section_pattern_no_Bol: "Bol \<notin> set section_pattern"
  by (simp add: section_pattern_def lits_def)

lemma findall_section_Nil: "findall_from section_pattern 0 b [] = []"
  by (simp add: rmatch_section_pattern numbered_header_line_def)

lemma findall_section_miss:
  "rmatch section_pattern False (c # cs) = None \<Longrightarrow>
   length (findall_from section_pattern 0 b (c # cs)) =
     length (findall_from section_pattern 0 False cs)"
  using rmatch_no_Bol [OF section_pattern_no_Bol, of b "c # cs"]
    findall_from_no_Bol [OF section_pattern_no_Bol, of 0 "c = newline" cs]
  by simp

lemma findall_section_hit:
  assumes "rmatch section_pattern False (c # cs) = Some n"
  shows "length (findall_from section_pattern 0 b (c # cs)) =
     Suc (length (findall_from section_pattern 0 False (drop n (c # cs))))"
proof -
  from assms have "n \<le> length (c # cs)" by (rule rmatch_length)
  moreover from assms have "0 < n"
    by (auto simp: rmatch_section_pattern split: if_splits list.splits)
  ultimately have "n - 1 \<le> length cs" and d: "drop n (c # cs) = drop (n - 1) cs"
    by (simp_all add: drop_Cons')
  with assms rmatch_no_Bol [OF section_pattern_no_Bol, of b "c # cs"]
    findall_from_skip [OF section_pattern_no_Bol, of "n - 1" cs "c = newline"]
  show ?thesis by simp
qed


lemma section_hit_shape:
  assumes "rmatch section_pattern False s = Some n"
  shows "\<exists>k. n = 20 + k \<and> numbered_header_line s \<and> 6 < length s \<and>
    find_sub impact_marker (drop 7 s) = Some k"
proof -
  from assms have h: "numbered_header_line s"
    by (simp add: rmatch_section_pattern split: if_splits)
  with assms obtain c rest where d: "drop 6 s = c # rest"
    by (auto simp: rmatch_section_pattern split: list.splits)
  then have "drop 7 s = rest"
    using drop_drop [of 1 6 s] by simp
  moreover from d have "6 < length s"
    by (cases "6 < length s") simp_all
  ultimately show ?thesis
    using assms h d by (auto simp: rmatch_section_pattern)
qed

lemma length_impact_marker: "length impact_marker = 13"
  by (simp add: impact_marker_def)

lemma sections_with_metadata_upper:
  "length (findall_from section_pattern 0 b s) \<le> count_sub impact_marker s"
proof (induction "length s" arbitrary: s b rule: less_induct)
  case less
  show ?case
  proof (cases s)
    case Nil
    with findall_section_Nil [of b] show ?thesis by simp
  next
    case (Cons c cs)
    show ?thesis
    proof (cases "rmatch section_pattern False (c # cs)")
      case None
      have "length (findall_from section_pattern 0 False cs) \<le> count_sub impact_marker cs"
        using less [of cs False] Cons by simp
      with Cons show ?thesis
        by (simp add: findall_section_miss [OF None] del: findall_from.simps)
    next
      case (Some n)
      with Cons section_hit_shape [of s n] obtain k where n: "n = 20 + k"
        and long: "6 < length s"
        and k: "find_sub impact_marker (drop 7 s) = Some k"
        by auto
      from find_sub_length [OF k] long have j: "7 + k < length s"
        by (simp add: length_impact_marker)
      from find_sub_startswith [OF k] have "startswith impact_marker (drop (7 + k) s)"
        by (simp add: add.commute)
      from count_sub_occurrence [OF this j]
      have occ: "Suc (count_sub impact_marker (drop (8 + k) s)) \<le> count_sub impact_marker s"
        by simp
      have "drop n s = drop 12 (drop (8 + k) s)"
        by (simp add: n add.commute)
      then have "count_sub impact_marker (drop n s) \<le> count_sub impact_marker (drop (8 + k) s)"
        by (simp only: count_sub_drop)
      moreover have "length (findall_from section_pattern 0 False (drop n s))
          \<le> count_sub impact_marker (drop n s)"
        using less [of "drop n s" False] j n by simp
      ultimately show ?thesis
        using occ Cons by (simp add: findall_section_hit [OF Some] del: findall_from.simps)
    qed
  qed
qed


subsection \<open>Headers followed at once by the marker\<close>

lemma numbered_header_line_shape:
  "numbered_header_line s \<Longrightarrow>
   \<exists>d t. s = CHR ''#'' # CHR ''#'' # CHR '' '' # d # CHR ''.'' # CHR '' '' # t \<and> isdigit d"
  by (auto simp: numbered_header_line_def startswith_Cons split: list.splits)

lemma conforming_hash: "x \<noteq> CHR ''#'' \<Longrightarrow> \<not> conforming (x # xs)"
  by (auto simp: conforming_def dest: numbered_header_line_shape)

lemma startswith_decomp: "startswith m s \<Longrightarrow> s = m @ drop (length m) s"
  by (induction m s rule: startswith.induct) auto

lemma conforming_shape:
  assumes "conforming s"
  shows "\<exists>q. 7 \<le> q \<and> newline \<notin> set (take q s) \<and> startswith impact_marker (drop q s)"
proof -
  define t where "t = takeWhile (\<lambda>c. c \<noteq> newline) (drop 6 s)"
  from assms have h: "numbered_header_line s" and t: "t \<noteq> []"
    and m: "startswith impact_marker (dropWhile (\<lambda>c. c \<noteq> newline) (drop 6 s))"
    by (simp_all add: conforming_def t_def)
  from h have six: "newline \<notin> set (take 6 s)"
    by (auto dest!: numbered_header_line_shape simp: newline_def isdigit_def)
  have "take (6 + length t) s = take 6 s @ take (length t) (drop 6 s)"
    by (simp add: take_add)
  also have "take (length t) (drop 6 s) = t"
    unfolding t_def by (simp add: takeWhile_eq_take [symmetric])
  finally have "newline \<notin> set (take (6 + length t) s)"
    using six by (auto simp: t_def dest: set_takeWhileD)
  moreover have "drop (6 + length t) s = dropWhile (\<lambda>c. c \<noteq> newline) (drop 6 s)"
    unfolding t_def by (simp add: dropWhile_eq_drop add.commute)
  moreover from t have "7 \<le> 6 + length t"
    by (cases t) simp_all
  ultimately show ?thesis
    using m by metis
qed

lemma startswith_marker_newline:
  "startswith impact_marker s \<Longrightarrow> \<exists>t. s = newline # t"
  by (cases s) (simp_all add: impact_marker_def newline_def)

lemma conforming_has_newline: "conforming s \<Longrightarrow> newline \<in> set s"
proof -
  assume "conforming s"
  then obtain q where "startswith impact_marker (drop q s)"
    using conforming_shape by blast
  then obtain t where "drop q s = newline # t"
    using startswith_marker_newline by blast
  then have "newline \<in> set (drop q s)" by simp
  then show ?thesis by (rule in_set_dropD)
qed

lemma find_sub_exists:
  "startswith m (drop j s) \<Longrightarrow> j \<le> length s \<Longrightarrow> \<exists>k. find_sub m s = Some k"
proof (induction s arbitrary: j)
  case Nil
  then show ?case by (cases m) simp_all
next
  case (Cons c s)
  show ?case
  proof (cases j)
    case 0
    with Cons.prems show ?thesis by simp
  next
    case (Suc i)
    with Cons.prems Cons.IH [of i] show ?thesis by auto
  qed
qed

lemma startswith_marker_drop:
  "startswith impact_marker (drop j s) \<Longrightarrow> j < length s"
  by (cases "j < length s") (simp_all add: impact_marker_def)

lemma conforming_hit:
  assumes "conforming s"
  shows "rmatch section_pattern False s \<noteq> None"
proof -
  from conforming_shape [OF assms] obtain q where q: "7 \<le> q"
    and m: "startswith impact_marker (drop q s)"
    by blast
  from startswith_marker_drop [OF m] q have len: "6 < length s" "q - 7 \<le> length (drop 7 s)"
    by simp_all
  from m q have "startswith impact_marker (drop (q - 7) (drop 7 s))"
    by simp
  from find_sub_exists [OF this len(2)] obtain k
    where k: "find_sub impact_marker (drop 7 s) = Some k" ..
  from len obtain c rest where d: "drop 6 s = c # rest"
    by (cases "drop 6 s") simp_all
  then have "drop 7 s = rest"
    using drop_drop [of 1 6 s] by simp
  with assms k d show ?thesis
    by (simp add: rmatch_section_pattern conforming_def)
qed


lemma conforming_starts_no_newline:
  "newline \<notin> set l \<Longrightarrow> conforming_starts False (l @ ys) = conforming_starts False ys"
  by (induction l) auto

lemma conforming_starts_marker:
  assumes "startswith impact_marker ys"
  shows "conforming_starts b ys = conforming_starts False (drop 13 ys)"
proof -
  from startswith_decomp [OF assms] have "ys = impact_marker @ drop 13 ys"
    by (simp add: length_impact_marker)
  then obtain t where "ys = impact_marker @ t" and "drop 13 ys = t"
    by (metis append_eq_conv_conj length_impact_marker)
  then show ?thesis
    by (simp add: impact_marker_def conforming_hash newline_def)
qed

lemma conforming_starts_to_marker:
  assumes k: "find_sub impact_marker ys = Some k"
    and free: "newline \<notin> set (take k ys)"
  shows "conforming_starts False ys = conforming_starts False (drop (k + 13) ys)"
proof -
  have "conforming_starts False (take k ys @ drop k ys)
      = conforming_starts False (drop k ys)"
    using free by (rule conforming_starts_no_newline)
  also have "\<dots> = conforming_starts False (drop 13 (drop k ys))"
    using find_sub_startswith [OF k] by (rule conforming_starts_marker)
  finally show ?thesis by (simp add: add.commute)
qed

lemma conforming_newline_free:
  assumes c: "conforming (pre @ ys)"
    and pre: "length pre \<le> 7"
    and k: "find_sub impact_marker ys = Some k"
  shows "newline \<notin> set pre \<and> newline \<notin> set (take k ys)"
proof -
  from conforming_shape [OF c] obtain q where q: "7 \<le> q"
    and free: "newline \<notin> set (take q (pre @ ys))"
    and m: "startswith impact_marker (drop q (pre @ ys))"
    by blast
  from q pre have qp: "length pre \<le> q" by simp
  with m have m': "startswith impact_marker (drop (q - length pre) ys)"
    by simp
  from startswith_marker_drop [OF m'] have "q - length pre \<le> length ys"
    by simp
  from find_sub_first [OF k m' this] have "k \<le> q - length pre" .
  then have "set (take k ys) \<subseteq> set (take (q - length pre) ys)"
    by (rule set_take_subset_set_take)
  moreover from free qp have "newline \<notin> set pre"
    and "newline \<notin> set (take (q - length pre) ys)"
    by simp_all
  ultimately show ?thesis by blast
qed

lemma conforming_starts_step:
  "find_sub impact_marker ys = Some k \<Longrightarrow>
   conforming_starts b ys \<le> Suc (conforming_starts False (drop (k + 13) ys))"
proof (induction ys arbitrary: k b)
  case Nil
  then show ?case by (simp add: impact_marker_def)
next
  case (Cons x xs)
  show ?case
  proof (cases "startswith impact_marker (x # xs)")
    case True
    with Cons.prems have "k = 0" by simp
    with conforming_starts_marker [OF True, of b] show ?thesis by simp
  next
    case False
    with Cons.prems obtain k' where k': "find_sub impact_marker xs = Some k'"
      and k: "k = Suc k'"
      by auto
    have d: "drop (k + 13) (x # xs) = drop (k' + 13) xs"
      unfolding k by (simp only: add_Suc drop_Suc_Cons)
    show ?thesis
    proof (cases "b \<and> conforming (x # xs)")
      case True
      then have "conforming ([x] @ xs)" by simp
      from conforming_newline_free [OF this _ k']
      have x: "x \<noteq> newline" and free: "newline \<notin> set (take k' xs)"
        by auto
      from conforming_starts_to_marker [OF k' free] x True show ?thesis
        unfolding d by simp
    next
      case False
      with Cons.IH [OF k', of "x = newline"] show ?thesis
        unfolding d by auto
    qed
  qed
qed

lemma conforming_starts_header:
  assumes "numbered_header_line s" and "6 < length s"
  shows "conforming_starts b s =
     (if b \<and> conforming s then 1 else 0) + conforming_starts (s ! 6 = newline) (drop 7 s)"
proof -
  from numbered_header_line_shape [OF assms(1)] obtain d t
    where s: "s = CHR ''#'' # CHR ''#'' # CHR '' '' # d # CHR ''.'' # CHR '' '' # t"
      and d: "isdigit d"
    by blast
  from s assms(2) obtain c rest where t: "t = c # rest"
    by (cases t) auto
  from d have "d \<noteq> newline" by auto
  then show ?thesis
    unfolding s t by (simp add: conforming_hash newline_def)
qed

lemma conforming_starts_hit:
  assumes hit: "rmatch section_pattern False s = Some n"
  shows "conforming_starts b s \<le> Suc (conforming_starts False (drop n s))"
proof -
  from section_hit_shape [OF hit] obtain k where n: "n = 20 + k"
    and h: "numbered_header_line s" and long: "6 < length s"
    and k: "find_sub impact_marker (drop 7 s) = Some k"
    by blast
  have dn: "drop (k + 13) (drop 7 s) = drop n s"
    by (simp add: n add.commute)
  note split = conforming_starts_header [OF h long, of b]
  show ?thesis
  proof (cases "b \<and> conforming s")
    case True
    then have "conforming (take 7 s @ drop 7 s)" by simp
    from conforming_newline_free [OF this _ k]
    have pre: "newline \<notin> set (take 7 s)" and free: "newline \<notin> set (take k (drop 7 s))"
      by auto
    from long have "s ! 6 \<in> set (take 7 s)"
      using nth_mem [of 6 "take 7 s"] by simp
    with pre have "s ! 6 \<noteq> newline" by auto
    with split True conforming_starts_to_marker [OF k free] dn show ?thesis
      by simp
  next
    case False
    with split conforming_starts_step [OF k, of "s ! 6 = newline"] dn show ?thesis
      by auto
  qed
qed

lemma conforming_starts_le_findall:
  "conforming_starts b s \<le> length (findall_from section_pattern 0 b' s)"
proof (induction "length s" arbitrary: s b b' rule: less_induct)
  case less
  show ?case
  proof (cases s)
    case Nil
    then show ?thesis by simp
  next
    case (Cons c cs)
    show ?thesis
    proof (cases "rmatch section_pattern False (c # cs)")
      case None
      with conforming_hit [of "c # cs"] have "\<not> conforming (c # cs)" by blast
      moreover have "conforming_starts (c = newline) cs
          \<le> length (findall_from section_pattern 0 False cs)"
        using less [of cs] Cons by simp
      ultimately show ?thesis
        using Cons by (simp add: findall_section_miss [OF None] del: findall_from.simps)
    next
      case (Some n)
      with Cons have hit: "rmatch section_pattern False s = Some n" by simp
      from section_hit_shape [OF hit] rmatch_length [OF hit]
      have "length (drop n s) < length s" by auto
      from less [OF this, of False False] conforming_starts_hit [OF hit, of b]
      show ?thesis
        using Cons by (simp add: findall_section_hit [OF Some] del: findall_from.simps)
    qed
  qed
qed


subsection \<open>Adjacency on the lines of the document\<close>

lemma adjacent_count_Cons:
  "adjacent_count h (l # ls) =
     (case ls of
        b # m # rest \<Rightarrow> if h l \<and> b = [] \<and> startswith ''**Impact:**'' m then 1 else 0
      | _ \<Rightarrow> 0) + adjacent_count h ls"
proof (cases ls)
  case Nil
  then show ?thesis by simp
next
  case (Cons b t)
  then show ?thesis by (cases t) simp_all
qed

lemma conforming_starts_line:
  assumes "newline \<notin> set l"
  shows "conforming_starts b (l @ newline # rest) =
     (if b \<and> conforming (l @ newline # rest) then 1 else 0) + conforming_starts True rest"
proof (cases l)
  case Nil
  then show ?thesis by simp
next
  case (Cons x l')
  with assms have "x \<noteq> newline" "newline \<notin> set l'" by auto
  with conforming_starts_no_newline [of l' "newline # rest"] Cons show ?thesis
    by (simp add: conforming_hash newline_def)
qed

lemma conforming_starts_last_line:
  assumes "newline \<notin> set l"
  shows "conforming_starts b l = 0"
proof (cases l)
  case Nil
  then show ?thesis by simp
next
  case (Cons x l')
  with assms have "x \<noteq> newline" "newline \<notin> set l'" by auto
  with conforming_starts_no_newline [of l' "[]"] conforming_has_newline [of l] assms Cons
  show ?thesis by auto
qed

lemma numbered_header_line_local:
  "newline \<notin> set l \<Longrightarrow> numbered_header_line (l @ newline # rest) = numbered_header_line l"
  using rmatch_line_local [OF sections_re_items, of l True rest]
  by (simp add: rmatch_sections_re split: if_splits)

lemma numbered_header_line_length: "numbered_header_line l \<Longrightarrow> 6 \<le> length l"
  by (auto dest: numbered_header_line_shape)

lemma first_line_startswith:
  "newline \<notin> set p \<Longrightarrow> startswith p (hd (split_lines s)) = startswith p s"
proof (induction p s rule: startswith.induct)
  case (1 s)
  show ?case by simp
next
  case (2 p ps)
  show ?case by simp
next
  case (3 p ps c cs)
  then show ?case by (cases "split_lines cs") auto
qed

lemma marker_follows_iff:
  "startswith impact_marker (newline # rest) =
     (case split_lines rest of
        b # m # ms \<Rightarrow> b = [] \<and> startswith ''**Impact:**'' m
      | _ \<Rightarrow> False)"
proof (cases rest)
  case Nil
  then show ?thesis by (simp add: impact_marker_def)
next
  case (Cons c t)
  show ?thesis
  proof (cases "c = newline")
    case True
    obtain m ms where ms: "split_lines t = m # ms"
      by (cases "split_lines t") simp_all
    have "startswith ''**Impact:**'' (hd (split_lines t)) = startswith ''**Impact:**'' t"
      by (rule first_line_startswith) (simp add: newline_def)
    with ms have "startswith ''**Impact:**'' m = startswith ''**Impact:**'' t"
      by simp
    with True Cons ms show ?thesis
      by (simp add: impact_marker_def newline_def)
  next
    case False
    with Cons show ?thesis
      by (auto simp: impact_marker_def newline_def split: list.splits)
  qed
qed

lemma conforming_line:
  assumes l: "newline \<notin> set l"
  shows "conforming (l @ newline # rest) =
     (titled_header_line l \<and>
      (case split_lines rest of
         b # m # ms \<Rightarrow> b = [] \<and> startswith ''**Impact:**'' m
       | _ \<Rightarrow> False))"
proof (cases "numbered_header_line l")
  case False
  with l show ?thesis
    by (simp add: conforming_def titled_header_line_def numbered_header_line_local)
next
  case True
  from numbered_header_line_length [OF True] have six: "6 \<le> length l" .
  from l have P: "\<And>x. x \<in> set (drop 6 l) \<Longrightarrow> x \<noteq> newline"
    by (auto dest: in_set_dropD)
  have tw: "takeWhile (\<lambda>c. c \<noteq> newline) (drop 6 l @ newline # rest) = drop 6 l"
    using P by (simp add: takeWhile_append2)
  have dw: "dropWhile (\<lambda>c. c \<noteq> newline) (drop 6 l @ newline # rest) = newline # rest"
    using P by (simp add: dropWhile_append2)
  from six have "(drop 6 l \<noteq> []) = (6 < length l)"
    by auto
  with True l six tw dw show ?thesis
    by (simp add: conforming_def titled_header_line_def numbered_header_line_local
        marker_follows_iff)
qed

lemma adjacent_count_conforming_starts:
  "adjacent_count titled_header_line (split_lines s) = conforming_starts True s"
proof (induction "length s" arbitrary: s rule: less_induct)
  case less
  show ?case
  proof (cases "newline \<in> set s")
    case False
    then show ?thesis
      by (simp add: split_lines_no_newline conforming_starts_last_line)
  next
    case True
    then obtain l rest where s: "s = l @ newline # rest" and l: "newline \<notin> set l"
      by (auto dest: split_list_first)
    from s have "length rest < length s" by simp
    from less [OF this] l show ?thesis
      unfolding s
      by (simp add: split_lines_append adjacent_count_Cons conforming_starts_line
          conforming_line split: list.splits)
  qed
qed

subsection \<open>The count of sections with a metadata block\<close>

text \<open>
  C1, as stated, fails: under \<^verbatim>\<open>re.DOTALL\<close> the lazy \<^verbatim>\<open>.+?\<close> of the pattern runs across
  lines up to the nearest blank line followed by the marker, so a section whose marker
  appears only later, after other text, is counted.
\<close>

theorem later_marker_is_counted:
  "sections_with_metadata ''## 1. Routes\<newline>\<newline>Some text.\<newline>\<newline>**Impact:** HIGH\<newline>'' = 1 \<and>
   adjacent_count numbered_header_line
     (split_lines ''## 1. Routes\<newline>\<newline>Some text.\<newline>\<newline>**Impact:** HIGH\<newline>'') = 0"
  by code_simp

text \<open>
  C1, amended. For every document the count of sections reported as carrying a metadata
  block is at least the number of numbered section headings with some title text whose
  heading line is followed, after exactly one blank line, by a line that opens with the
  marker \<^verbatim>\<open>**Impact:**\<close>, and at most the number of places where a blank line followed by
  the marker occurs in the document; the census prints that count out of 7.
\<close>

theorem sections_with_metadata_bounds:
  "adjacent_count titled_header_line (split_lines content) \<le> sections_with_metadata content \<and>
   sections_with_metadata content \<le> count_sub impact_marker content \<and>
   check_mark @ '' Sections with metadata: '' @ str_nat (sections_with_metadata content) @ ''/7''
     \<in> set (final_verify content)"
proof -
  have "adjacent_count titled_header_line (split_lines content)
      \<le> sections_with_metadata content"
    unfolding adjacent_count_conforming_starts sections_with_metadata_def findall_def
    by (rule conforming_starts_le_findall)
  moreover have "sections_with_metadata content \<le> count_sub impact_marker content"
    unfolding sections_with_metadata_def findall_def
    by (rule sections_with_metadata_upper)
  ultimately show ?thesis
    by (simp add: final_verify_mem)
qed

theorem sections_with_metadata_bounds_witness:
  "sections_with_metadata example_document = 1"
proof -
  have "adjacent_count titled_header_line (split_lines example_document) = 1"
    and "count_sub impact_marker example_document = 1"
    by code_simp+
  with sections_with_metadata_bounds [of example_document] show ?thesis
    by simp
qed

end
